theory Spec2Isabelle
  imports Main
begin

section \<open>Data model\<close>

text \<open>
  The development follows the variant of \<^verbatim>\<open>src/threadlocker.js\<close> that has the
  \<^verbatim>\<open>ThreadCache\<close> class, the queueing \<^verbatim>\<open>RateLimit\<close> class, the retry
  executor with a delay schedule and the sequential batch loop.

  A thread is the snapshot of the fields the program reads from a platform thread
  object: \<^verbatim>\<open>id\<close>, \<^verbatim>\<open>parentId\<close>, \<^verbatim>\<open>createdAt\<close> (milliseconds),
  \<^verbatim>\<open>archived\<close> and \<^verbatim>\<open>locked\<close>. The field \<^verbatim>\<open>name\<close> is only logged and is
  left out. The field \<^verbatim>\<open>id\<close> is called \<open>tid\<close> here.

  The flags of a thread record are the values that one run reads. The program caches
  the platform's thread objects, which the platform updates in place, so a retry or a
  later event that is served from the cache can read other flags than the record
  holds; the properties below that speak of flags are about one run on a given list.
\<close>

type_synonym snowflake = string

record thread =
  tid :: snowflake
  parentId :: snowflake
  createdAt :: int
  archived :: bool
  locked :: bool

text \<open>
  The three mutating calls the program issues on a thread:
  \<^verbatim>\<open>thread.setArchived(false)\<close>, \<^verbatim>\<open>thread.send(MESSAGE_CONTENT)\<close> and
  \<^verbatim>\<open>thread.setLocked(true)\<close>. A call is recorded with the identifier of its thread.
\<close>

datatype action = SetArchived | Send | SetLocked

type_synonym call = "action \<times> snowflake"

datatype error = Error string

text \<open>
  The collaborators. The world \<open>'w\<close> is everything outside the process: the clock, the
  platform and its failures. Every rejected promise is an \<open>error\<close> value.
\<close>

record 'w platform =
  dateNow :: "'w \<Rightarrow> int"
  sleep :: "int \<Rightarrow> 'w \<Rightarrow> 'w"
  channelsFetch :: "snowflake \<Rightarrow> 'w \<Rightarrow> (error + snowflake) \<times> 'w"
  fetchActive :: "snowflake \<Rightarrow> 'w \<Rightarrow> (error + thread list) \<times> 'w"
  fetchArchived :: "snowflake \<Rightarrow> 'w \<Rightarrow> (error + thread list) \<times> 'w"
  archivedRejectsFirst :: "'w \<Rightarrow> bool"
  perform :: "action \<Rightarrow> thread \<Rightarrow> 'w \<Rightarrow> error option \<times> 'w"

definition CACHE_DURATION :: int where "CACHE_DURATION = 5 * 60 * 1000"
definition RATE_LIMIT_MAX_OPS :: nat where "RATE_LIMIT_MAX_OPS = 5"
definition RATE_LIMIT_WINDOW :: int where "RATE_LIMIT_WINDOW = 10000"
definition RETRY_MAX_ATTEMPTS :: int where "RETRY_MAX_ATTEMPTS = 2"
definition BATCH_SIZE :: nat where "BATCH_SIZE = 5"
definition OPERATION_DELAY :: int where "OPERATION_DELAY = 100"

section \<open>ThreadCache\<close>

record entry =
  timestamp :: int
  threads :: "thread list"

record ThreadCache =
  cache :: "snowflake \<rightharpoonup> entry"
  duration :: int

definition cache_set :: "ThreadCache \<Rightarrow> snowflake \<Rightarrow> thread list \<Rightarrow> int \<Rightarrow> ThreadCache" where
  "cache_set tc channelId ts now =
     tc\<lparr>cache := (cache tc)(channelId \<mapsto> \<lparr>timestamp = now, threads = ts\<rparr>)\<rparr>"

text \<open>\<^verbatim>\<open>get\<close>: the result and the cache after the call; \<open>now\<close> is \<^verbatim>\<open>Date.now()\<close>.\<close>

definition cache_get :: "ThreadCache \<Rightarrow> snowflake \<Rightarrow> int \<Rightarrow> thread list option \<times> ThreadCache" where
  "cache_get tc channelId now =
     (case cache tc channelId of
        None \<Rightarrow> (None, tc\<lparr>cache := (cache tc)(channelId := None)\<rparr>)
      | Some data \<Rightarrow>
          if now - timestamp data > duration tc
          then (None, tc\<lparr>cache := (cache tc)(channelId := None)\<rparr>)
          else (Some (threads data), tc))"

definition cache_cleanup :: "ThreadCache \<Rightarrow> int \<Rightarrow> ThreadCache" where
  "cache_cleanup tc now =
     tc\<lparr>cache := (\<lambda>channelId.
        case cache tc channelId of
          None \<Rightarrow> None
        | Some data \<Rightarrow> if now - timestamp data > duration tc then None else Some data)\<rparr>"

section \<open>RateLimit\<close>

text \<open>
  \<open>operations\<close> maps a thread identifier to the timestamps recorded for it, \<open>queue\<close> to
  the resolve callbacks of the suspended callers, oldest first. A callback is
  represented by the time of the call that created it.
\<close>

record RateLimit =
  operations :: "snowflake \<rightharpoonup> int list"
  queue :: "snowflake \<rightharpoonup> int list"
  maxOperations :: nat
  timeWindow :: int

definition ratelimit_cleanup :: "RateLimit \<Rightarrow> int \<Rightarrow> RateLimit" where
  "ratelimit_cleanup rl now =
     rl\<lparr>operations := (\<lambda>threadId.
        case operations rl threadId of
          None \<Rightarrow> None
        | Some ops \<Rightarrow>
            (let validOps = filter (\<lambda>time. now - time < timeWindow rl) ops
             in if length validOps = 0 then None else Some validOps))\<rparr>"

text \<open>
  \<^verbatim>\<open>canProceed\<close> either returns \<^verbatim>\<open>true\<close> at once, or returns a promise that stays
  pending: its resolver is appended to the queue of the thread and a timer of
  \<open>timeWindow\<close> milliseconds is set.
\<close>

datatype admission = ReturnedTrue | Suspended

definition canProceed :: "RateLimit \<Rightarrow> snowflake \<Rightarrow> int \<Rightarrow> admission \<times> RateLimit" where
  "canProceed rl threadId now =
     (let recentOps = (case operations rl threadId of None \<Rightarrow> [] | Some ops \<Rightarrow> ops);
          validOps = filter (\<lambda>time. now - time < timeWindow rl) recentOps
      in if length validOps \<ge> maxOperations rl
         then (Suspended,
               rl\<lparr>queue := (queue rl)(threadId \<mapsto>
                  (case queue rl threadId of None \<Rightarrow> [] | Some q \<Rightarrow> q) @ [now])\<rparr>)
         else (ReturnedTrue,
               rl\<lparr>operations := (operations rl)(threadId \<mapsto> validOps @ [now])\<rparr>))"

text \<open>
  The timer callback set by a suspended call: it takes the oldest callback of the
  thread off the queue and calls it with \<^verbatim>\<open>true\<close>; the queue entry is deleted when
  no callback is left. The result is the callback that was released, if any.
\<close>

definition timerFired :: "RateLimit \<Rightarrow> snowflake \<Rightarrow> int option \<times> RateLimit" where
  "timerFired rl threadId =
     (case (case queue rl threadId of None \<Rightarrow> [] | Some q \<Rightarrow> q) of
        [] \<Rightarrow> (None, rl\<lparr>queue := (queue rl)(threadId := None)\<rparr>)
      | callback # callbacks \<Rightarrow>
          (Some callback,
           rl\<lparr>queue := (if length callbacks = 0 then (queue rl)(threadId := None)
                         else (queue rl)(threadId \<mapsto> callbacks))\<rparr>))"

section \<open>Program state\<close>

text \<open>
  The module-level instances \<^verbatim>\<open>threadCache\<close> and \<^verbatim>\<open>rateLimit\<close>, the world, and
  the list of the mutating calls issued so far, oldest first.
\<close>

record 'w state =
  world :: 'w
  threadCache :: ThreadCache
  rateLimit :: RateLimit
  calls :: "call list"

section \<open>withRetry\<close>

text \<open>
  The error thrown after the loop is \<^verbatim>\<open>new Error(`Operation failed after
  ${maxRetries} attempts: ${lastError.message}`)\<close>: it is determined by \<open>maxRetries\<close> and
  the last error. Reading \<^verbatim>\<open>.message\<close> of an unset \<^verbatim>\<open>lastError\<close> throws a
  \<^verbatim>\<open>TypeError\<close> instead.
\<close>

datatype 'e retry_error = OperationFailed int 'e | TypeError

definition delays :: "int list" where
  "delays = [1000, 2000, 4000]"

text \<open>\<^verbatim>\<open>delays[attempt - 1] || delays[delays.length - 1]\<close>\<close>

definition retry_delay :: "int \<Rightarrow> int" where
  "retry_delay attempt =
     (let i = attempt - 1;
          d = (if 0 \<le> i \<and> nat i < length delays then Some (delays ! nat i) else None)
      in case d of
           Some v \<Rightarrow> if v \<noteq> 0 then v else delays ! (length delays - 1)
         | None \<Rightarrow> delays ! (length delays - 1))"

definition retry_throw :: "int \<Rightarrow> 'e option \<Rightarrow> 'e retry_error" where
  "retry_throw maxRetries lastError =
     (case lastError of None \<Rightarrow> TypeError | Some e \<Rightarrow> OperationFailed maxRetries e)"

text \<open>
  The loop of \<^verbatim>\<open>withRetry\<close>, from the test \<^verbatim>\<open>attempt <= maxRetries\<close>. The
  operation and the wait act on a state \<open>'s\<close>; \<open>waited\<close> collects the delays that were
  waited for, oldest first.
\<close>

function withRetry_loop ::
  "('s \<Rightarrow> ('e + 'a) \<times> 's) \<Rightarrow> (int \<Rightarrow> 's \<Rightarrow> 's) \<Rightarrow> int \<Rightarrow> int \<Rightarrow> 'e option \<Rightarrow> int list \<Rightarrow> 's
     \<Rightarrow> ('e retry_error + 'a) \<times> int list \<times> 's" where
  "withRetry_loop operation wait maxRetries attempt lastError waited s =
     (if attempt \<le> maxRetries then
        (case operation s of
           (Inr v, s') \<Rightarrow> (Inr v, waited, s')
         | (Inl err, s') \<Rightarrow>
             if attempt = maxRetries
             then (Inl (retry_throw maxRetries (Some err)), waited, s')
             else withRetry_loop operation wait maxRetries (attempt + 1) (Some err)
                    (waited @ [retry_delay attempt]) (wait (retry_delay attempt) s'))
      else (Inl (retry_throw maxRetries lastError), waited, s))"
  by pat_completeness auto
termination
  by (relation "measure (\<lambda>(operation, wait, maxRetries, attempt, lastError, waited, s).
                   nat (maxRetries + 1 - attempt))") auto

definition withRetry ::
  "('s \<Rightarrow> ('e + 'a) \<times> 's) \<Rightarrow> (int \<Rightarrow> 's \<Rightarrow> 's) \<Rightarrow> int \<Rightarrow> 's \<Rightarrow> ('e retry_error + 'a) \<times> int list \<times> 's" where
  "withRetry operation wait maxRetries s = withRetry_loop operation wait maxRetries 1 None [] s"

section \<open>getThreadsWithCache\<close>

text \<open>
  On a miss both enumerations are started (\<^verbatim>\<open>Promise.all\<close>), the active one
  first, and a failure of either rejects the whole call. When both reject, the call
  rejects with the error of the one that rejected first; the platform tells which
  (\<open>archivedRejectsFirst\<close>). The cached value is an array, which is truthy even when
  empty, so every hit is returned.
\<close>

definition getThreadsWithCache ::
  "'w platform \<Rightarrow> snowflake \<Rightarrow> 'w state \<Rightarrow> (error + thread list) \<times> 'w state" where
  "getThreadsWithCache P channel s =
     (case cache_get (threadCache s) channel (dateNow P (world s)) of
        (Some cachedThreads, tc) \<Rightarrow> (Inr cachedThreads, s\<lparr>threadCache := tc\<rparr>)
      | (None, tc) \<Rightarrow>
          (case fetchActive P channel (world s) of (activeThreads, w1) \<Rightarrow>
           case fetchArchived P channel w1 of (archivedThreads, w2) \<Rightarrow>
           case activeThreads of
             Inl e \<Rightarrow>
               (case archivedThreads of
                  Inl e' \<Rightarrow>
                    (Inl (if archivedRejectsFirst P w2 then e' else e),
                     s\<lparr>world := w2, threadCache := tc\<rparr>)
                | Inr archived' \<Rightarrow> (Inl e, s\<lparr>world := w2, threadCache := tc\<rparr>))
           | Inr active \<Rightarrow>
               (case archivedThreads of
                  Inl e \<Rightarrow> (Inl e, s\<lparr>world := w2, threadCache := tc\<rparr>)
                | Inr archived' \<Rightarrow>
                    (let allThreads = active @ archived'
                     in (Inr allThreads,
                         s\<lparr>world := w2,
                           threadCache := cache_set tc channel allThreads (dateNow P w2)\<rparr>)))))"

section \<open>processThread\<close>

text \<open>One mutating call on a thread: it is recorded, and the platform decides its outcome.\<close>

definition issue :: "'w platform \<Rightarrow> action \<Rightarrow> thread \<Rightarrow> 'w state \<Rightarrow> error option \<times> 'w state" where
  "issue P a t s =
     (case perform P a t (world s) of
        (r, w) \<Rightarrow> (r, s\<lparr>world := w, calls := calls s @ [(a, tid t)]\<rparr>))"

text \<open>
  The \<^verbatim>\<open>catch\<close> block logs the error and throws it again, so a failed call ends
  \<^verbatim>\<open>processThread\<close> with that error.
\<close>

definition processThread ::
  "'w platform \<Rightarrow> thread \<Rightarrow> bool \<Rightarrow> 'w state \<Rightarrow> (error + unit) \<times> 'w state" where
  "processThread P t isSecondLatest s =
     (case (if archived t then issue P SetArchived t s else (None, s)) of
        (Some e, s1) \<Rightarrow> (Inl e, s1)
      | (None, s1) \<Rightarrow>
          (case (if isSecondLatest then issue P Send t s1 else (None, s1)) of
             (Some e, s2) \<Rightarrow> (Inl e, s2)
           | (None, s2) \<Rightarrow>
               (case (if \<not> locked t then issue P SetLocked t s2 else (None, s2)) of
                  (Some e, s3) \<Rightarrow> (Inl e, s3)
                | (None, s3) \<Rightarrow> (Inr (), s3))))"

section \<open>processThreadsBatch\<close>

text \<open>
  \<^verbatim>\<open>await rateLimit.canProceed(thread.id)\<close> inside the sequential loop. A suspended
  call resumes when the timer it set fires, \<open>timeWindow\<close> later, and the callback passes
  \<^verbatim>\<open>true\<close>.
\<close>

definition await_canProceed :: "'w platform \<Rightarrow> snowflake \<Rightarrow> 'w state \<Rightarrow> bool \<times> 'w state" where
  "await_canProceed P threadId s =
     (case canProceed (rateLimit s) threadId (dateNow P (world s)) of
        (ReturnedTrue, rl) \<Rightarrow> (True, s\<lparr>rateLimit := rl\<rparr>)
      | (Suspended, rl) \<Rightarrow>
          (True, s\<lparr>world := sleep P (timeWindow rl) (world s),
                   rateLimit := snd (timerFired rl threadId)\<rparr>))"

text \<open>
  The loop variables: the set \<^verbatim>\<open>processedThreads\<close>, the flag
  \<^verbatim>\<open>secondLatestProcessed\<close> and the program state.
\<close>

type_synonym 'w vars = "snowflake set \<times> bool \<times> 'w state"

text \<open>The inner loop \<^verbatim>\<open>for (const thread of batch)\<close>; an error leaves both loops.\<close>

fun forBatch :: "'w platform \<Rightarrow> snowflake \<Rightarrow> thread list \<Rightarrow> 'w vars \<Rightarrow> error option \<times> 'w vars" where
  "forBatch P newThreadId [] v = (None, v)"
| "forBatch P newThreadId (t # batch) (processedThreads, secondLatestProcessed, s) =
     (if tid t = newThreadId \<or> tid t \<in> processedThreads
      then forBatch P newThreadId batch (processedThreads, secondLatestProcessed, s)
      else
        (case await_canProceed P (tid t) s of (proceed, s1) \<Rightarrow>
           if proceed then
             (let isSecondLatest = (\<not> secondLatestProcessed \<and> tid t \<noteq> newThreadId);
                  secondLatestProcessed' = (if isSecondLatest then True else secondLatestProcessed)
              in case processThread P t isSecondLatest s1 of
                   (Inl e, s2) \<Rightarrow> (Some e, (processedThreads, secondLatestProcessed', s2))
                 | (Inr u, s2) \<Rightarrow>
                     forBatch P newThreadId batch
                       (insert (tid t) processedThreads, secondLatestProcessed',
                        s2\<lparr>world := sleep P OPERATION_DELAY (world s2)\<rparr>))
           else forBatch P newThreadId batch (processedThreads, secondLatestProcessed, s1)))"

text \<open>\<^verbatim>\<open>threads.slice(i, i + BATCH_SIZE)\<close>\<close>

definition slice :: "nat \<Rightarrow> nat \<Rightarrow> 'a list \<Rightarrow> 'a list" where
  "slice i j xs = take (j - i) (drop i xs)"

text \<open>The outer loop \<^verbatim>\<open>for (let i = 0; i < threads.length; i += BATCH_SIZE)\<close>, from \<open>i\<close>.\<close>

function forBatches ::
  "'w platform \<Rightarrow> thread list \<Rightarrow> snowflake \<Rightarrow> nat \<Rightarrow> 'w vars \<Rightarrow> error option \<times> 'w vars" where
  "forBatches P ts newThreadId i v =
     (if i < length ts then
        (case forBatch P newThreadId (slice i (i + BATCH_SIZE) ts) v of
           (Some e, v') \<Rightarrow> (Some e, v')
         | (None, v') \<Rightarrow> forBatches P ts newThreadId (i + BATCH_SIZE) v')
      else (None, v))"
  by pat_completeness auto
termination
  by (relation "measure (\<lambda>(P, ts, newThreadId, i, v). length ts - i)")
     (auto simp: BATCH_SIZE_def)

definition processThreadsBatch ::
  "'w platform \<Rightarrow> thread list \<Rightarrow> snowflake \<Rightarrow> 'w state \<Rightarrow> (error + unit) \<times> 'w state" where
  "processThreadsBatch P ts newThreadId s =
     (case forBatches P ts newThreadId 0 ({}, False, s) of
        (Some e, (processedThreads, secondLatestProcessed, s')) \<Rightarrow> (Inl e, s')
      | (None, (processedThreads, secondLatestProcessed, s')) \<Rightarrow> (Inr (), s'))"

section \<open>The ThreadCreate handler\<close>

text \<open>
  \<^verbatim>\<open>allThreads.filter(t => !t.locked).sort((a, b) => b.createdAt - a.createdAt)\<close>:
  \<^verbatim>\<open>Array.prototype.sort\<close> is stable, and the comparator orders by descending
  \<^verbatim>\<open>createdAt\<close>.
\<close>

definition unlockedThreads :: "thread list \<Rightarrow> thread list" where
  "unlockedThreads allThreads =
     sort_key (\<lambda>t. - createdAt t) (filter (\<lambda>t. \<not> locked t) allThreads)"

text \<open>The part of the retried operation that follows \<^verbatim>\<open>getThreadsWithCache\<close>.\<close>

definition reconcile ::
  "'w platform \<Rightarrow> thread list \<Rightarrow> snowflake \<Rightarrow> 'w state \<Rightarrow> (error + unit) \<times> 'w state" where
  "reconcile P allThreads newThreadId s =
     (if length (unlockedThreads allThreads) \<ge> 2
      then processThreadsBatch P (unlockedThreads allThreads) newThreadId s
      else (Inr (), s))"

text \<open>The operation handed to \<^verbatim>\<open>withRetry\<close>; \<open>CHANNEL_ID\<close> is the configured channel.\<close>

definition operation ::
  "'w platform \<Rightarrow> snowflake \<Rightarrow> snowflake \<Rightarrow> 'w state \<Rightarrow> (error + unit) \<times> 'w state" where
  "operation P CHANNEL_ID newThreadId s =
     (case channelsFetch P CHANNEL_ID (world s) of
        (Inl e, w) \<Rightarrow> (Inl e, s\<lparr>world := w\<rparr>)
      | (Inr channel, w) \<Rightarrow>
          (case getThreadsWithCache P channel (s\<lparr>world := w\<rparr>) of
             (Inl e, s1) \<Rightarrow> (Inl e, s1)
           | (Inr allThreads, s1) \<Rightarrow> reconcile P allThreads newThreadId s1))"

definition wait :: "'w platform \<Rightarrow> int \<Rightarrow> 'w state \<Rightarrow> 'w state" where
  "wait P delay s = s\<lparr>world := sleep P delay (world s)\<rparr>"

text \<open>
  The handler: the error of an exhausted retry is caught and logged, so the handler
  returns the state in both cases. The first component tells whether an error was
  logged.
\<close>

definition onThreadCreate ::
  "'w platform \<Rightarrow> snowflake \<Rightarrow> thread \<Rightarrow> 'w state \<Rightarrow> error retry_error option \<times> 'w state" where
  "onThreadCreate P CHANNEL_ID t s =
     (if parentId t \<noteq> CHANNEL_ID then (None, s)
      else
        (case withRetry (operation P CHANNEL_ID (tid t)) (wait P) RETRY_MAX_ATTEMPTS s of
           (Inl e, waited, s') \<Rightarrow> (Some e, s')
         | (Inr u, waited, s') \<Rightarrow> (None, s')))"

section \<open>Notions used to state the properties\<close>

text \<open>
  The calls the specification lists for one thread, in its order: unarchive if
  archived, send the message if selected, lock if unlocked.
\<close>

definition spec_thread_calls :: "thread \<Rightarrow> bool \<Rightarrow> call list" where
  "spec_thread_calls t selected =
     (if archived t then [(SetArchived, tid t)] else []) @
     (if selected then [(Send, tid t)] else []) @
     (if \<not> locked t then [(SetLocked, tid t)] else [])"

text \<open>
  The actions of a list issued on a thread in order, each recorded, until the platform
  rejects one: the run of the list then fails with that error and the actions after it
  are not issued.
\<close>

fun spec_issue_in_order ::
  "'w platform \<Rightarrow> thread \<Rightarrow> action list \<Rightarrow> 'w state \<Rightarrow> (error + unit) \<times> 'w state" where
  "spec_issue_in_order P t [] s = (Inr (), s)"
| "spec_issue_in_order P t (a # rest) s =
     (case perform P a t (world s) of
        (Some e, w) \<Rightarrow> (Inl e, s\<lparr>world := w, calls := calls s @ [(a, tid t)]\<rparr>)
      | (None, w) \<Rightarrow>
          spec_issue_in_order P t rest (s\<lparr>world := w, calls := calls s @ [(a, tid t)]\<rparr>))"

text \<open>
  \<open>advance opn wt a k s\<close> is the state in which attempt \<open>a + k\<close> of \<^verbatim>\<open>withRetry\<close>
  starts when attempt \<open>a\<close> started in \<open>s\<close> and the attempts in between were each
  followed by the wait of the schedule.
\<close>

fun advance :: "('s \<Rightarrow> ('e + 'a) \<times> 's) \<Rightarrow> (int \<Rightarrow> 's \<Rightarrow> 's) \<Rightarrow> int \<Rightarrow> nat \<Rightarrow> 's \<Rightarrow> 's" where
  "advance opn wt a 0 s = s"
| "advance opn wt a (Suc k) s = advance opn wt (a + 1) k (wt (retry_delay a) (snd (opn s)))"

text \<open>
  The calls of a run of the two loops in which no call fails, from the loop variables
  \<open>processedThreads\<close> and \<open>secondLatestProcessed\<close>: the loops skip the trigger and the
  threads already processed, and select the first thread they process.
\<close>

fun plan :: "snowflake \<Rightarrow> thread list \<Rightarrow> snowflake set \<Rightarrow> bool \<Rightarrow> call list" where
  "plan newThreadId [] processedThreads secondLatestProcessed = []"
| "plan newThreadId (t # ts) processedThreads secondLatestProcessed =
     (if tid t = newThreadId \<or> tid t \<in> processedThreads
      then plan newThreadId ts processedThreads secondLatestProcessed
      else spec_thread_calls t (\<not> secondLatestProcessed) @
           plan newThreadId ts (insert (tid t) processedThreads) True)"

text \<open>The calls issued between the states \<open>s\<close> and \<open>s'\<close>.\<close>

definition issued :: "'w state \<Rightarrow> 'w state \<Rightarrow> call list" where
  "issued s s' = drop (length (calls s)) (calls s')"

text \<open>The state \<open>s'\<close> extends the calls of \<open>s\<close> by calls on threads other than \<open>n\<close>.\<close>

definition trace_extends :: "snowflake \<Rightarrow> 'w state \<Rightarrow> 'w state \<Rightarrow> bool" where
  "trace_extends n s s' \<longleftrightarrow> (\<exists>xs. calls s' = calls s @ xs \<and> (\<forall>c\<in>set xs. snd c \<noteq> n))"

section \<open>The rate limiter under a schedule of calls and timers\<close>

text \<open>
  \<^verbatim>\<open>canProceed\<close> is called from several runs that are in flight at once, and its
  timers fire between them. A schedule is a list of timed events: a call of
  \<^verbatim>\<open>canProceed\<close> for a thread, the firing of a timer that a suspended call for the
  thread has set, or the periodic cleanup. The simulation keeps the pending timers
  with their due times and the list of the admissions: every call that returned
  \<^verbatim>\<open>true\<close> and every suspended call whose callback was called with \<^verbatim>\<open>true\<close>, with
  the time at which that happened. A schedule that goes back in time, or fires a
  timer that is not due, is not a run of the program (\<open>None\<close>).
\<close>

datatype event = Call snowflake | Timer snowflake | Cleanup

record sim =
  limiter :: RateLimit
  timers :: "(int \<times> snowflake) list"
  admitted :: "(snowflake \<times> int) list"
  clock :: int

fun remove_due :: "int \<Rightarrow> snowflake \<Rightarrow> (int \<times> snowflake) list \<Rightarrow> (int \<times> snowflake) list option" where
  "remove_due now threadId [] = None"
| "remove_due now threadId ((due, i) # rest) =
     (if i = threadId \<and> due \<le> now then Some rest
      else map_option (\<lambda>r. (due, i) # r) (remove_due now threadId rest))"

definition sim_step :: "int \<times> event \<Rightarrow> sim \<Rightarrow> sim option" where
  "sim_step te st =
     (case te of (now, ev) \<Rightarrow>
        if now < clock st then None
        else
          (case ev of
             Call threadId \<Rightarrow>
               (case canProceed (limiter st) threadId now of
                  (ReturnedTrue, rl) \<Rightarrow>
                    Some (st\<lparr>limiter := rl, admitted := admitted st @ [(threadId, now)], clock := now\<rparr>)
                | (Suspended, rl) \<Rightarrow>
                    Some (st\<lparr>limiter := rl, timers := timers st @ [(now + timeWindow rl, threadId)],
                             clock := now\<rparr>))
           | Timer threadId \<Rightarrow>
               (case remove_due now threadId (timers st) of
                  None \<Rightarrow> None
                | Some rest \<Rightarrow>
                    (case timerFired (limiter st) threadId of
                       (Some callback, rl) \<Rightarrow>
                         Some (st\<lparr>limiter := rl, timers := rest,
                                  admitted := admitted st @ [(threadId, now)], clock := now\<rparr>)
                     | (None, rl) \<Rightarrow> Some (st\<lparr>limiter := rl, timers := rest, clock := now\<rparr>)))
           | Cleanup \<Rightarrow> Some (st\<lparr>limiter := ratelimit_cleanup (limiter st) now, clock := now\<rparr>)))"

fun sim_run :: "(int \<times> event) list \<Rightarrow> sim \<Rightarrow> sim option" where
  "sim_run [] st = Some st"
| "sim_run (te # rest) st = (case sim_step te st of None \<Rightarrow> None | Some st' \<Rightarrow> sim_run rest st')"

text \<open>
  The number of admissions for a thread in the window of length \<open>timeWindow\<close> that ends
  at \<open>t\<close>, with the test of the code: a time \<open>u\<close> is inside when \<open>t - u < timeWindow\<close>.
\<close>

definition admitted_within :: "sim \<Rightarrow> snowflake \<Rightarrow> int \<Rightarrow> nat" where
  "admitted_within st threadId t =
     length (filter (\<lambda>(i, u). i = threadId \<and> t - timeWindow (limiter st) < u \<and> u \<le> t) (admitted st))"

section \<open>Example inputs\<close>

text \<open>An operation that fails twice and then succeeds, and one that always fails.\<close>

definition flaky :: "nat \<Rightarrow> (string + nat) \<times> nat" where
  "flaky s = (if s < 2 then Inl ''timeout'' else Inr (10 * s), s + 1)"

definition hopeless :: "nat \<Rightarrow> (string + nat) \<times> nat" where
  "hopeless s = (Inl ''timeout'', s + 1)"

definition no_wait :: "int \<Rightarrow> nat \<Rightarrow> nat" where
  "no_wait d s = s"

text \<open>
  A platform whose world is the clock. The calls listed in \<open>failing\<close> are rejected,
  every other call succeeds; the two enumerations return the given lists.
\<close>

definition demo :: "thread list \<Rightarrow> thread list \<Rightarrow> call list \<Rightarrow> int platform" where
  "demo active archived' failing =
     \<lparr>dateNow = (\<lambda>w. w),
      sleep = (\<lambda>d w. w + d),
      channelsFetch = (\<lambda>c w. (Inr c, w)),
      fetchActive = (\<lambda>c w. (Inr active, w)),
      fetchArchived = (\<lambda>c w. (Inr archived', w)),
      archivedRejectsFirst = (\<lambda>w. False),
      perform = (\<lambda>a t w. (if (a, tid t) \<in> set failing then Some (Error ''rejected'') else None, w))\<rparr>"

definition T1 :: thread where
  "T1 = \<lparr>tid = ''1'', parentId = ''chan'', createdAt = 1, archived = True, locked = False\<rparr>"

definition T2 :: thread where
  "T2 = \<lparr>tid = ''2'', parentId = ''chan'', createdAt = 2, archived = False, locked = False\<rparr>"

definition T3 :: thread where
  "T3 = \<lparr>tid = ''3'', parentId = ''chan'', createdAt = 3, archived = False, locked = False\<rparr>"

definition emptyCache :: ThreadCache where
  "emptyCache = \<lparr>cache = Map.empty, duration = CACHE_DURATION\<rparr>"

definition newRateLimit :: RateLimit where
  "newRateLimit = \<lparr>operations = Map.empty, queue = Map.empty,
                    maxOperations = RATE_LIMIT_MAX_OPS, timeWindow = RATE_LIMIT_WINDOW\<rparr>"

definition start :: "int state" where
  "start = \<lparr>world = 0, threadCache = emptyCache, rateLimit = newRateLimit, calls = []\<rparr>"


definition newSim :: sim where
  "newSim = \<lparr>limiter = newRateLimit, timers = [], admitted = [], clock = 0\<rparr>"

text \<open>
  Eleven calls for one thread in eleven milliseconds, then the six timers of the
  suspended calls, each at its due time.
\<close>

definition burst :: "(int \<times> event) list" where
  "burst =
     [(0, Call ''7''), (1, Call ''7''), (2, Call ''7''), (3, Call ''7''), (4, Call ''7''),
      (5, Call ''7''), (6, Call ''7''), (7, Call ''7''), (8, Call ''7''), (9, Call ''7''),
      (10, Call ''7''),
      (10005, Timer ''7''), (10006, Timer ''7''), (10007, Timer ''7''), (10008, Timer ''7''),
      (10009, Timer ''7''), (10010, Timer ''7'')]"

section \<open>ThreadCache.get\<close>

lemma cache_get_hit:
  "fst (cache_get tc c now) = Some ts \<longleftrightarrow>
     (\<exists>data. cache tc c = Some data \<and> threads data = ts \<and> now - timestamp data \<le> duration tc)"
  by (auto simp: cache_get_def split: option.splits)

lemma cache_get_unchanged:
  "fst (cache_get tc c now) \<noteq> None \<Longrightarrow> snd (cache_get tc c now) = tc"
  by (auto simp: cache_get_def split: option.splits if_splits)

lemma cache_get_evicts:
  "fst (cache_get tc c now) = None \<Longrightarrow>
   snd (cache_get tc c now) = tc\<lparr>cache := (cache tc)(c := None)\<rparr>"
  by (auto simp: cache_get_def split: option.splits if_splits)

lemma cache_get_after_set:
  "fst (cache_get (cache_set tc c snapshot setTime) c now) =
     (if now - setTime \<le> duration tc then Some snapshot else None)"
  by (simp add: cache_get_def cache_set_def)

text \<open>
  Claim C5, as the code has it. A \<^verbatim>\<open>get\<close> returns the stored snapshot exactly when
  the channel has an entry and at most \<open>duration\<close> milliseconds have passed since its
  timestamp (the test is \<^verbatim>\<open>Date.now() - data.timestamp > this.duration\<close>, so a read
  at exactly \<open>duration\<close> is still a hit); a hit leaves the cache as it is; every other
  read returns absent and leaves the cache without an entry for the channel. In terms
  of the preceding \<^verbatim>\<open>set\<close> at time \<open>setTime\<close>: the snapshot is returned if and only
  if \<open>now - setTime \<le> duration\<close>.
\<close>

theorem cache_get_freshness:
  "(fst (cache_get tc c now) = Some ts \<longleftrightarrow>
      (\<exists>data. cache tc c = Some data \<and> threads data = ts \<and> now - timestamp data \<le> duration tc))
   \<and> (fst (cache_get tc c now) \<noteq> None \<longrightarrow> snd (cache_get tc c now) = tc)
   \<and> (fst (cache_get tc c now) = None \<longrightarrow>
        snd (cache_get tc c now) = tc\<lparr>cache := (cache tc)(c := None)\<rparr>)
   \<and> fst (cache_get (cache_set tc c snapshot setTime) c now) =
        (if now - setTime \<le> duration tc then Some snapshot else None)"
  using cache_get_hit cache_get_unchanged cache_get_evicts cache_get_after_set
  by blast

theorem cache_get_freshness_witness:
  "fst (cache_get (cache_set emptyCache ''chan'' [T1] 0) ''chan'' 1000) = Some [T1]
   \<and> snd (cache_get (cache_set emptyCache ''chan'' [T1] 0) ''chan'' 1000)
       = cache_set emptyCache ''chan'' [T1] 0
   \<and> fst (cache_get (cache_set emptyCache ''chan'' [T1] 0) ''chan'' 300001) = None
   \<and> cache (snd (cache_get (cache_set emptyCache ''chan'' [T1] 0) ''chan'' 300001)) ''chan'' = None"
proof -
  let ?tc = "cache_set emptyCache ''chan'' [T1] 0"
  have a: "fst (cache_get ?tc ''chan'' 1000) = Some [T1]"
    using cache_get_freshness[where tc = emptyCache and c = "''chan''" and now = 1000
        and snapshot = "[T1]" and setTime = 0]
    by (simp add: emptyCache_def CACHE_DURATION_def)
  have b: "snd (cache_get ?tc ''chan'' 1000) = ?tc"
    using cache_get_freshness[where tc = ?tc and c = "''chan''" and now = 1000] a by simp
  have c: "fst (cache_get ?tc ''chan'' 300001) = None"
    using cache_get_freshness[where tc = emptyCache and c = "''chan''" and now = 300001
        and snapshot = "[T1]" and setTime = 0]
    by (simp add: emptyCache_def CACHE_DURATION_def)
  have d: "cache (snd (cache_get ?tc ''chan'' 300001)) ''chan'' = None"
    using cache_get_freshness[where tc = ?tc and c = "''chan''" and now = 300001] c by simp
  from a b c d show ?thesis by blast
qed

text \<open>
  The boundary at which claim C5 fails as it is written: a read made exactly
  \<open>duration\<close> milliseconds after the \<^verbatim>\<open>set\<close> still returns the snapshot, although
  the time elapsed is not strictly less than the duration.
\<close>

theorem cache_get_boundary_counterexample:
  "fst (cache_get (cache_set emptyCache ''chan'' [T1] 0) ''chan'' CACHE_DURATION) = Some [T1]
   \<and> \<not> (CACHE_DURATION - 0 < duration (cache_set emptyCache ''chan'' [T1] 0))"
  by (simp add: cache_get_def cache_set_def emptyCache_def)

section \<open>processThread\<close>

lemma issue_calls: "calls (snd (issue P a t s)) = calls s @ [(a, tid t)]"
  by (simp add: issue_def split: prod.splits)

lemma issue_eq:
  "issue P a t s = (r, s') \<Longrightarrow> calls s' = calls s @ [(a, tid t)]"
  using issue_calls[of P a t s] by simp

lemma guarded_issue_calls:
  "(if c then issue P a t s else (None, s)) = (r, s') \<Longrightarrow>
   calls s' = calls s @ (if c then [(a, tid t)] else [])"
  by (cases c) (auto dest: issue_eq)

lemma take_append_exact: "\<exists>k. xs @ ys = xs @ take k (ys @ zs)"
  by (rule exI[of _ "length ys"]) simp

lemma processThread_prefix:
  "\<exists>k. calls (snd (processThread P t sel s)) = calls s @ take k (spec_thread_calls t sel)"
proof -
  let ?A = "if archived t then [(SetArchived, tid t)] else []"
  let ?B = "if sel then [(Send, tid t)] else []"
  let ?C = "if \<not> locked t then [(SetLocked, tid t)] else []"
  obtain r1 s1 where g1: "(if archived t then issue P SetArchived t s else (None, s)) = (r1, s1)"
    by (cases "if archived t then issue P SetArchived t s else (None, s)")
  obtain r2 s2 where g2: "(if sel then issue P Send t s1 else (None, s1)) = (r2, s2)"
    by (cases "if sel then issue P Send t s1 else (None, s1)")
  obtain r3 s3 where g3: "(if \<not> locked t then issue P SetLocked t s2 else (None, s2)) = (r3, s3)"
    by (cases "if \<not> locked t then issue P SetLocked t s2 else (None, s2)")
  have c1: "calls s1 = calls s @ ?A" using guarded_issue_calls[OF g1] .
  have c2: "calls s2 = calls s @ ?A @ ?B" using guarded_issue_calls[OF g2] c1 by simp
  have c3: "calls s3 = calls s @ ?A @ ?B @ ?C" using guarded_issue_calls[OF g3] c2 by simp
  have spec: "spec_thread_calls t sel = ?A @ ?B @ ?C" by (simp add: spec_thread_calls_def)
  have "snd (processThread P t sel s) = s1 \<or> snd (processThread P t sel s) = s2
        \<or> snd (processThread P t sel s) = s3"
    unfolding processThread_def g1 using g2 g3
    by (cases r1; cases r2; cases r3) simp_all
  moreover have "\<exists>k. calls s1 = calls s @ take k (?A @ ?B @ ?C)"
    unfolding c1 using take_append_exact[of "calls s" ?A "?B @ ?C"] by simp
  moreover have "\<exists>k. calls s2 = calls s @ take k (?A @ ?B @ ?C)"
    unfolding c2 using take_append_exact[of "calls s" "?A @ ?B" ?C] by simp
  moreover have "\<exists>k. calls s3 = calls s @ take k (?A @ ?B @ ?C)"
    unfolding c3 using take_append_exact[of "calls s" "?A @ ?B @ ?C" "[]"] by simp
  ultimately show ?thesis unfolding spec by metis
qed





section \<open>withRetry\<close>

declare withRetry_loop.simps [simp del]

lemma withRetry_loop_failures:
  assumes "\<forall>j<k. isl (fst (opn (advance opn wt a j s)))" and "a + int k \<le> M"
  shows "withRetry_loop opn wt M a le acc s =
         withRetry_loop opn wt M (a + int k)
           (if k = 0 then le else Some (projl (fst (opn (advance opn wt a (k - 1) s)))))
           (acc @ map (\<lambda>j. retry_delay (a + int j)) [0..<k]) (advance opn wt a k s)"
  using assms
proof (induction k arbitrary: a s le acc)
  case 0
  then show ?case by simp
next
  case (Suc k)
  from Suc.prems(1) have f0: "isl (fst (opn s))" by force
  then obtain e s1 where o: "opn s = (Inl e, s1)"
    by (cases "opn s") (auto simp: isl_def)
  have rest: "\<forall>j<k. isl (fst (opn (advance opn wt (a + 1) j (wt (retry_delay a) s1))))"
  proof (intro allI impI)
    fix j assume "j < k"
    then have "Suc j < Suc k" by simp
    with Suc.prems(1) have "isl (fst (opn (advance opn wt a (Suc j) s)))" by blast
    then show "isl (fst (opn (advance opn wt (a + 1) j (wt (retry_delay a) s1))))"
      using o by simp
  qed
  have le': "a + 1 + int k \<le> M" using Suc.prems(2) by simp
  have step: "withRetry_loop opn wt M a le acc s =
        withRetry_loop opn wt M (a + 1) (Some e) (acc @ [retry_delay a]) (wt (retry_delay a) s1)"
    using Suc.prems(2) o by (subst withRetry_loop.simps) simp
  have m: "map (\<lambda>j. retry_delay (a + int j)) [0..<Suc k] =
           retry_delay a # map (\<lambda>j. retry_delay (a + 1 + int j)) [0..<k]"
    by (simp add: map_upt_Suc add.commute add.left_commute del: upt_Suc)
  have last: "(if k = 0 then Some e
               else Some (projl (fst (opn (advance opn wt (a + 1) (k - 1) (wt (retry_delay a) s1)))))) =
              Some (projl (fst (opn (advance opn wt a k s))))"
    using o by (cases k) auto
  show ?case
    unfolding step Suc.IH[OF rest le'] m
    using o last by (simp add: add.assoc del: upt_Suc)
qed


lemma retry_delay_schedule:
  "1 \<le> k \<Longrightarrow> retry_delay k = (if k \<le> 3 then delays ! nat (k - 1) else last delays)"
  by (auto simp: retry_delay_def delays_def nth_Cons split: nat.splits)

lemma map_shift_upt:
  "1 \<le> n \<Longrightarrow> map (\<lambda>j. f (1 + int j)) [0..<n - 1] = map (\<lambda>j. f (int j)) [1..<n]"
proof -
  assume "1 \<le> n"
  then have "[1..<n] = map Suc [0..<n - 1]"
    by (cases n) (simp_all add: map_Suc_upt del: upt_Suc)
  then show ?thesis by (simp add: comp_def add.commute)
qed

lemma withRetry_success:
  assumes "1 \<le> N" "int N \<le> M"
      and "\<forall>j<N - 1. isl (fst (opn (advance opn wt 1 j s)))"
      and "opn (advance opn wt 1 (N - 1) s) = (Inr v, s')"
  shows "withRetry opn wt M s = (Inr v, map (\<lambda>j. retry_delay (int j)) [1..<N], s')"
proof -
  have "withRetry opn wt M s =
        withRetry_loop opn wt M (1 + int (N - 1))
           (if N - 1 = 0 then None else Some (projl (fst (opn (advance opn wt 1 (N - 1 - 1) s)))))
           ([] @ map (\<lambda>j. retry_delay (1 + int j)) [0..<N - 1]) (advance opn wt 1 (N - 1) s)"
    unfolding withRetry_def using assms(1,2)
    by (intro withRetry_loop_failures[OF assms(3)]) simp
  also have "\<dots> = (Inr v, map (\<lambda>j. retry_delay (1 + int j)) [0..<N - 1], s')"
    using assms(1,2,4) by (subst withRetry_loop.simps) simp
  also have "map (\<lambda>j. retry_delay (1 + int j)) [0..<N - 1] = map (\<lambda>j. retry_delay (int j)) [1..<N]"
    using assms(1) by (intro map_shift_upt) simp
  finally show ?thesis .
qed

lemma withRetry_exhausted:
  assumes "1 \<le> M"
      and "\<forall>j<nat M - 1. isl (fst (opn (advance opn wt 1 j s)))"
      and "opn (advance opn wt 1 (nat M - 1) s) = (Inl e, s')"
  shows "withRetry opn wt M s =
           (Inl (OperationFailed M e), map (\<lambda>j. retry_delay (int j)) [1..<nat M], s')"
proof -
  have "withRetry opn wt M s =
        withRetry_loop opn wt M (1 + int (nat M - 1))
           (if nat M - 1 = 0 then None else Some (projl (fst (opn (advance opn wt 1 (nat M - 1 - 1) s)))))
           ([] @ map (\<lambda>j. retry_delay (1 + int j)) [0..<nat M - 1]) (advance opn wt 1 (nat M - 1) s)"
    unfolding withRetry_def using assms(1)
    by (intro withRetry_loop_failures[OF assms(2)]) simp
  also have "\<dots> = (Inl (OperationFailed M e), map (\<lambda>j. retry_delay (1 + int j)) [0..<nat M - 1], s')"
    using assms(1,3) by (subst withRetry_loop.simps) (simp add: retry_throw_def)
  also have "map (\<lambda>j. retry_delay (1 + int j)) [0..<nat M - 1] = map (\<lambda>j. retry_delay (int j)) [1..<nat M]"
    using assms(1) by (intro map_shift_upt) simp
  finally show ?thesis .
qed

text \<open>
  Claim C4. If the attempts \<open>1 .. N - 1\<close> fail and attempt \<open>N \<le> maxRetries\<close> succeeds,
  \<^verbatim>\<open>withRetry\<close> returns the result of attempt \<open>N\<close>; if all \<open>maxRetries \<ge> 1\<close> attempts
  fail, it fails with the error built from \<open>maxRetries\<close> and the error of the last
  attempt. In both cases the delays waited before the retries are those of the
  schedule for the attempts \<open>1, 2, ...\<close> in order, and the schedule is 1000, 2000,
  4000 and then 4000 for every later attempt.
\<close>

theorem withRetry_contract:
  "(1 \<le> N \<and> int N \<le> M
      \<and> (\<forall>j<N - 1. isl (fst (opn (advance opn wt 1 j s))))
      \<and> opn (advance opn wt 1 (N - 1) s) = (Inr v, s')
     \<longrightarrow> withRetry opn wt M s = (Inr v, map (\<lambda>j. retry_delay (int j)) [1..<N], s'))
   \<and> (1 \<le> M
      \<and> (\<forall>j<nat M - 1. isl (fst (opn (advance opn wt 1 j s))))
      \<and> opn (advance opn wt 1 (nat M - 1) s) = (Inl e, s')
     \<longrightarrow> withRetry opn wt M s =
           (Inl (OperationFailed M e), map (\<lambda>j. retry_delay (int j)) [1..<nat M], s'))
   \<and> (1 \<le> k \<longrightarrow> retry_delay k = (if k \<le> 3 then [1000, 2000, 4000] ! nat (k - 1) else 4000))"
  using withRetry_success[of N M opn wt s v s'] withRetry_exhausted[of M opn wt s e s']
    retry_delay_schedule[of k]
  by (simp add: delays_def)

theorem withRetry_contract_witness:
  "isl (fst (flaky (advance flaky no_wait 1 0 0)))
   \<and> isl (fst (flaky (advance flaky no_wait 1 1 0)))
   \<and> flaky (advance flaky no_wait 1 2 0) = (Inr 20, 3)
   \<and> withRetry flaky no_wait 5 0 = (Inr 20, [1000, 2000], 3)
   \<and> isl (fst (hopeless (advance hopeless no_wait 1 0 0)))
   \<and> hopeless (advance hopeless no_wait 1 1 0) = (Inl ''timeout'', 2)
   \<and> withRetry hopeless no_wait 2 0 = (Inl (OperationFailed 2 ''timeout''), [1000], 2)
   \<and> retry_delay 7 = 4000"
proof -
  have adv: "advance flaky no_wait 1 0 0 = 0" "advance flaky no_wait 1 1 0 = 1"
    "advance flaky no_wait 1 2 0 = 2" "advance hopeless no_wait 1 0 0 = 0"
    "advance hopeless no_wait 1 1 0 = 1"
    by (simp_all add: numeral_2_eq_2 flaky_def hopeless_def no_wait_def)
  have f0: "isl (fst (flaky (advance flaky no_wait 1 0 0)))"
    and f1: "isl (fst (flaky (advance flaky no_wait 1 1 0)))"
    and f2: "flaky (advance flaky no_wait 1 2 0) = (Inr 20, 3)"
    and h0: "isl (fst (hopeless (advance hopeless no_wait 1 0 0)))"
    and h1: "hopeless (advance hopeless no_wait 1 1 0) = (Inl ''timeout'', 2)"
    unfolding adv by (simp_all add: flaky_def hopeless_def)
  have fall: "\<forall>j<3 - 1. isl (fst (flaky (advance flaky no_wait 1 j 0)))"
  proof (intro allI impI)
    fix j :: nat assume "j < 3 - 1"
    then have "j = 0 \<or> j = 1" by auto
    then show "isl (fst (flaky (advance flaky no_wait 1 j 0)))" using f0 f1 by auto
  qed
  have hall: "\<forall>j<nat 2 - 1. isl (fst (hopeless (advance hopeless no_wait 1 j 0)))"
    using h0 by simp
  have a: "withRetry flaky no_wait 5 0 = (Inr 20, [1000, 2000], 3)"
    using withRetry_contract[where N = 3 and M = 5 and opn = flaky and wt = no_wait and s = 0
        and v = 20 and s' = 3] fall f2
    by (simp add: retry_delay_def delays_def upt_rec)
  have b: "withRetry hopeless no_wait 2 0 = (Inl (OperationFailed 2 ''timeout''), [1000], 2)"
    using withRetry_contract[where M = 2 and opn = hopeless and wt = no_wait and s = 0
        and e = "''timeout''" and s' = 2] hall h1
    by (simp add: retry_delay_def delays_def upt_rec)
  have c: "retry_delay 7 = 4000"
    using withRetry_contract[where k = 7, THEN conjunct2, THEN conjunct2] by simp
  from f0 f1 f2 a h0 h1 b c show ?thesis by blast
qed

text \<open>
  Claim C10. With \<open>maxRetries = 0\<close> the loop body never runs: whatever the operation
  is, the state is unchanged, no delay is waited, and the failure is the
  \<^verbatim>\<open>TypeError\<close> of reading the message of the unset \<^verbatim>\<open>lastError\<close>, not the error
  that wraps a last underlying error.
\<close>

theorem withRetry_zero_attempts:
  "withRetry opn wt 0 s = (Inl TypeError, [], s)"
  by (simp add: withRetry_def withRetry_loop.simps retry_throw_def)

theorem withRetry_zero_attempts_witness:
  "withRetry flaky no_wait 0 0 = (Inl TypeError, [], 0)"
  by (rule withRetry_zero_attempts)

section \<open>The batch loops\<close>

declare forBatches.simps [simp del]

lemma await_canProceed_admits:
  "await_canProceed P i s = (b, s1) \<Longrightarrow> b \<and> calls s1 = calls s"
  by (auto simp: await_canProceed_def split: prod.splits admission.splits)

lemma processThread_Inr_calls:
  "processThread P t sel s = (Inr u, s') \<Longrightarrow> calls s' = calls s @ spec_thread_calls t sel"
proof -
  assume a: "processThread P t sel s = (Inr u, s')"
  obtain r1 s1 where g1: "(if archived t then issue P SetArchived t s else (None, s)) = (r1, s1)"
    by (cases "if archived t then issue P SetArchived t s else (None, s)")
  obtain r2 s2 where g2: "(if sel then issue P Send t s1 else (None, s1)) = (r2, s2)"
    by (cases "if sel then issue P Send t s1 else (None, s1)")
  obtain r3 s3 where g3: "(if \<not> locked t then issue P SetLocked t s2 else (None, s2)) = (r3, s3)"
    by (cases "if \<not> locked t then issue P SetLocked t s2 else (None, s2)")
  from a have "s' = s3"
    unfolding processThread_def g1 using g2 g3
    by (cases r1; cases r2; cases r3) simp_all
  then show ?thesis
    using guarded_issue_calls[OF g1] guarded_issue_calls[OF g2] guarded_issue_calls[OF g3]
    by (simp add: spec_thread_calls_def)
qed

lemma processThread_calls:
  "processThread P t sel s = (r, s') \<Longrightarrow>
   \<exists>k. calls s' = calls s @ take k (spec_thread_calls t sel)"
  using processThread_prefix[of P t sel s] by simp

lemma take_append_take: "\<exists>j. xs @ take k ys @ [] = xs @ take j (ys @ zs)"
proof (cases "k \<le> length ys")
  case True
  then show ?thesis by (intro exI[of _ k]) simp
next
  case False
  then show ?thesis by (intro exI[of _ "length ys"]) simp
qed

lemma forBatch_prefix:
  "forBatch P n ts (pr, sec, s) = (r, (pr', sec', s')) \<Longrightarrow>
   \<exists>k. calls s' = calls s @ take k (plan n ts pr sec)"
proof (induction ts arbitrary: pr sec s)
  case Nil
  then show ?case by simp
next
  case (Cons t ts)
  show ?case
  proof (cases "tid t = n \<or> tid t \<in> pr")
    case True
    with Cons.prems have "forBatch P n ts (pr, sec, s) = (r, (pr', sec', s'))" by simp
    from Cons.IH[OF this] True show ?thesis by simp
  next
    case False
    obtain b s1 where aw: "await_canProceed P (tid t) s = (b, s1)"
      by (cases "await_canProceed P (tid t) s")
    then have b: b and c1: "calls s1 = calls s" using await_canProceed_admits by blast+
    have sel: "(\<not> sec \<and> tid t \<noteq> n) = (\<not> sec)" using False by simp
    obtain q s2 where pt: "processThread P t (\<not> sec) s1 = (q, s2)"
      by (cases "processThread P t (\<not> sec) s1")
    show ?thesis
    proof (cases q)
      case (Inl e)
      with Cons.prems False aw b pt sel have "s' = s2" by simp
      moreover from processThread_calls[OF pt] obtain k where
        "calls s2 = calls s @ take k (spec_thread_calls t (\<not> sec))" using c1 by auto
      ultimately show ?thesis
        using False take_append_take[of "calls s" k "spec_thread_calls t (\<not> sec)" "plan n ts (insert (tid t) pr) True"]
        by simp
    next
      case (Inr u)
      let ?s2 = "s2\<lparr>world := sleep P OPERATION_DELAY (world s2)\<rparr>"
      from Cons.prems False aw b pt sel Inr
      have rest: "forBatch P n ts (insert (tid t) pr, True, ?s2) = (r, (pr', sec', s'))"
        by (cases sec) simp_all
      from Cons.IH[OF rest] obtain k where
        k: "calls s' = calls ?s2 @ take k (plan n ts (insert (tid t) pr) True)" by blast
      have c2: "calls ?s2 = calls s @ spec_thread_calls t (\<not> sec)"
        using processThread_Inr_calls[OF pt[unfolded Inr]] c1 by simp
      have "calls s' = calls s @ take (length (spec_thread_calls t (\<not> sec)) + k)
              (spec_thread_calls t (\<not> sec) @ plan n ts (insert (tid t) pr) True)"
        using k c2 by simp
      moreover have "plan n (t # ts) pr sec =
          spec_thread_calls t (\<not> sec) @ plan n ts (insert (tid t) pr) True"
        using False by simp
      ultimately show ?thesis by metis
    qed
  qed
qed

lemma forBatch_None_calls:
  "forBatch P n ts (pr, sec, s) = (None, (pr', sec', s')) \<Longrightarrow>
   calls s' = calls s @ plan n ts pr sec"
proof (induction ts arbitrary: pr sec s)
  case Nil
  then show ?case by simp
next
  case (Cons t ts)
  show ?case
  proof (cases "tid t = n \<or> tid t \<in> pr")
    case True
    with Cons.prems have "forBatch P n ts (pr, sec, s) = (None, (pr', sec', s'))" by simp
    from Cons.IH[OF this] True show ?thesis by simp
  next
    case False
    obtain b s1 where aw: "await_canProceed P (tid t) s = (b, s1)"
      by (cases "await_canProceed P (tid t) s")
    then have b: b and c1: "calls s1 = calls s" using await_canProceed_admits by blast+
    have sel: "(\<not> sec \<and> tid t \<noteq> n) = (\<not> sec)" using False by simp
    obtain q s2 where pt: "processThread P t (\<not> sec) s1 = (q, s2)"
      by (cases "processThread P t (\<not> sec) s1")
    show ?thesis
    proof (cases q)
      case (Inl e)
      with Cons.prems False aw b pt sel have False by simp
      then show ?thesis ..
    next
      case (Inr u)
      let ?s2 = "s2\<lparr>world := sleep P OPERATION_DELAY (world s2)\<rparr>"
      from Cons.prems False aw b pt sel Inr
      have rest: "forBatch P n ts (insert (tid t) pr, True, ?s2) = (None, (pr', sec', s'))"
        by (cases sec) simp_all
      have c2: "calls ?s2 = calls s @ spec_thread_calls t (\<not> sec)"
        using processThread_Inr_calls[OF pt[unfolded Inr]] c1 by simp
      from Cons.IH[OF rest] c2 False show ?thesis by simp
    qed
  qed
qed

lemma forBatch_append:
  "forBatch P n (xs @ ys) v =
     (case forBatch P n xs v of (Some e, v') \<Rightarrow> (Some e, v') | (None, v') \<Rightarrow> forBatch P n ys v')"
proof (induction xs arbitrary: v)
  case Nil
  then show ?case by simp
next
  case (Cons t xs)
  obtain pr sec s where v: "v = (pr, sec, s)" by (cases v)
  show ?case
  proof (cases "tid t = n \<or> tid t \<in> pr")
    case True
    then show ?thesis unfolding v using Cons.IH by simp
  next
    case False
    obtain b s1 where aw: "await_canProceed P (tid t) s = (b, s1)"
      by (cases "await_canProceed P (tid t) s")
    obtain q s2 where pt: "processThread P t (\<not> sec \<and> tid t \<noteq> n) s1 = (q, s2)"
      by (cases "processThread P t (\<not> sec \<and> tid t \<noteq> n) s1")
    show ?thesis unfolding v using False aw pt Cons.IH
      by (cases q; cases b) (simp_all add: Let_def)
  qed
qed

lemma forBatches_flat:
  "forBatches P ts n i v = forBatch P n (drop i ts) v"
proof (induction P ts n i v rule: forBatches.induct)
  case (1 P ts n i v)
  show ?case
  proof (cases "i < length ts")
    case False
    then show ?thesis by (subst forBatches.simps) simp
  next
    case True
    have split: "drop i ts = slice i (i + BATCH_SIZE) ts @ drop (i + BATCH_SIZE) ts"
    proof -
      have a: "slice i (i + BATCH_SIZE) ts = take BATCH_SIZE (drop i ts)"
        by (simp only: slice_def add_diff_cancel_left')
      have b: "drop (i + BATCH_SIZE) ts = drop BATCH_SIZE (drop i ts)"
        by (simp only: drop_drop add.commute)
      show ?thesis unfolding a b by (simp only: append_take_drop_id)
    qed
    show ?thesis
      apply (subst forBatches.simps)
      apply (subst split)
      apply (subst forBatch_append)
      using True 1
      apply (auto split: prod.splits option.splits)
      done
  qed
qed


lemma spec_thread_calls_tid: "c \<in> set (spec_thread_calls t sel) \<Longrightarrow> snd c = tid t"
  by (auto simp: spec_thread_calls_def split: if_splits)

lemma plan_tid: "c \<in> set (plan n ts pr sec) \<Longrightarrow> snd c \<noteq> n"
  by (induction ts arbitrary: pr sec) (auto split: if_splits dest: spec_thread_calls_tid)





lemma processThreadsBatch_calls:
  "processThreadsBatch P ts n s = (r, s') \<Longrightarrow> \<exists>k. calls s' = calls s @ take k (plan n ts {} False)"
proof -
  assume a: "processThreadsBatch P ts n s = (r, s')"
  obtain q pr sec s1 where f: "forBatch P n ts ({}, False, s) = (q, (pr, sec, s1))"
    by (cases "forBatch P n ts ({}, False, s)") auto
  with a have "s' = s1"
    by (cases q) (simp_all add: processThreadsBatch_def forBatches_flat)
  with forBatch_prefix[OF f] show ?thesis by simp
qed

lemma reconcile_calls:
  "reconcile P allThreads n s = (r, s') \<Longrightarrow>
   \<exists>k. calls s' = calls s @ take k (plan n (unlockedThreads allThreads) {} False)"
proof (cases "length (unlockedThreads allThreads) \<ge> 2")
  case True
  assume "reconcile P allThreads n s = (r, s')"
  with True show ?thesis by (simp add: reconcile_def processThreadsBatch_calls)
next
  case False
  assume "reconcile P allThreads n s = (r, s')"
  with False have "calls s' = calls s @ take 0 (plan n (unlockedThreads allThreads) {} False)"
    by (simp add: reconcile_def)
  then show ?thesis by blast
qed

lemma set_unlockedThreads: "set (unlockedThreads allThreads) = {t \<in> set allThreads. \<not> locked t}"
  by (auto simp: unlockedThreads_def)







lemma issued_append: "calls s' = calls s @ xs \<Longrightarrow> issued s s' = xs"
  by (simp add: issued_def)

lemma issue_cases:
  "issue P a t s =
     (fst (perform P a t (world s)),
      s\<lparr>world := snd (perform P a t (world s)), calls := calls s @ [(a, tid t)]\<rparr>)"
  by (cases "perform P a t (world s)") (simp add: issue_def)

lemma spec_issue_in_order_append:
  "spec_issue_in_order P t (xs @ ys) s =
     (case spec_issue_in_order P t xs s of
        (Inl e, s') \<Rightarrow> (Inl e, s')
      | (Inr u, s') \<Rightarrow> spec_issue_in_order P t ys s')"
  by (induction xs arbitrary: s) (simp_all split: prod.splits option.splits)

lemma spec_issue_in_order_guard:
  "(if c then issue P a t s else (None, s)) = (r, s1) \<Longrightarrow>
   spec_issue_in_order P t (if c then [a] else []) s =
     (case r of Some e \<Rightarrow> Inl e | None \<Rightarrow> Inr (), s1)"
  by (cases c; cases "perform P a t (world s)")
     (auto simp: issue_def split: option.splits)

lemma processThread_refines:
  "processThread P t sel s = spec_issue_in_order P t (map fst (spec_thread_calls t sel)) s"
proof -
  let ?A = "if archived t then [SetArchived] else []"
  let ?B = "if sel then [Send] else []"
  let ?C = "if \<not> locked t then [SetLocked] else []"
  obtain r1 s1 where g1: "(if archived t then issue P SetArchived t s else (None, s)) = (r1, s1)"
    by (cases "if archived t then issue P SetArchived t s else (None, s)")
  obtain r2 s2 where g2: "(if sel then issue P Send t s1 else (None, s1)) = (r2, s2)"
    by (cases "if sel then issue P Send t s1 else (None, s1)")
  obtain r3 s3 where g3: "(if \<not> locked t then issue P SetLocked t s2 else (None, s2)) = (r3, s3)"
    by (cases "if \<not> locked t then issue P SetLocked t s2 else (None, s2)")
  have m: "map fst (spec_thread_calls t sel) = ?A @ ?B @ ?C"
    by (simp add: spec_thread_calls_def)
  have lhs: "processThread P t sel s =
        (case r1 of Some e \<Rightarrow> (Inl e, s1)
         | None \<Rightarrow> (case r2 of Some e \<Rightarrow> (Inl e, s2)
            | None \<Rightarrow> (case r3 of Some e \<Rightarrow> (Inl e, s3) | None \<Rightarrow> (Inr (), s3))))"
    unfolding processThread_def g1 using g2 g3
    by (cases r1; cases r2; cases r3) simp_all
  have rhs: "spec_issue_in_order P t (?A @ ?B @ ?C) s =
        (case r1 of Some e \<Rightarrow> (Inl e, s1)
         | None \<Rightarrow> (case r2 of Some e \<Rightarrow> (Inl e, s2)
            | None \<Rightarrow> (case r3 of Some e \<Rightarrow> (Inl e, s3) | None \<Rightarrow> (Inr (), s3))))"
    unfolding spec_issue_in_order_append
      spec_issue_in_order_guard[OF g1] 
    by (cases r1; cases r2; cases r3)
       (simp_all add: spec_issue_in_order_guard[OF g2] spec_issue_in_order_guard[OF g3])
  show ?thesis unfolding m lhs rhs ..
qed

lemma spec_issue_in_order_rejected:
  "spec_issue_in_order P t acts s = (Inl e, s') \<Longrightarrow>
   \<exists>a\<in>set acts. \<exists>w. fst (perform P a t w) = Some e"
proof (induction acts arbitrary: s)
  case Nil
  then show ?case by simp
next
  case (Cons a acts)
  obtain r w where p: "perform P a t (world s) = (r, w)" by (cases "perform P a t (world s)")
  show ?case
  proof (cases r)
    case None
    with Cons.prems p have
      "spec_issue_in_order P t acts (s\<lparr>world := w, calls := calls s @ [(a, tid t)]\<rparr>) = (Inl e, s')"
      by simp
    from Cons.IH[OF this] show ?thesis by auto
  next
    case (Some e')
    with Cons.prems p have "e' = e" by simp
    with Some p have "fst (perform P a t (world s)) = Some e" by simp
    then show ?thesis by auto
  qed
qed

lemma spec_issue_in_order_first_rejection:
  assumes "\<forall>b\<in>set pre. \<forall>w. fst (perform P b t w) = None"
      and "\<forall>w. fst (perform P a t w) = Some e"
  shows "fst (spec_issue_in_order P t (pre @ a # post) s) = Inl e \<and>
         calls (snd (spec_issue_in_order P t (pre @ a # post) s)) =
           calls s @ map (\<lambda>b. (b, tid t)) (pre @ [a])"
  using assms(1)
proof (induction pre arbitrary: s)
  case Nil
  obtain r w where p: "perform P a t (world s) = (r, w)" by (cases "perform P a t (world s)")
  with assms(2) have "r = Some e" by (metis fst_conv)
  with p show ?case by simp
next
  case (Cons b pre)
  obtain r w where p: "perform P b t (world s) = (r, w)" by (cases "perform P b t (world s)")
  with Cons.prems have "r = None" by (metis fst_conv list.set_intros(1))
  with p Cons show ?case by simp
qed

lemma processThread_Inl_rejected:
  "processThread P t sel s = (Inl e, s') \<Longrightarrow> \<exists>a w. fst (perform P a t w) = Some e"
  unfolding processThread_refines by (blast dest: spec_issue_in_order_rejected)

lemma forBatch_Some_rejected:
  "forBatch P n ts (pr, sec, s) = (Some e, v') \<Longrightarrow>
   \<exists>t\<in>set ts. \<exists>a w. fst (perform P a t w) = Some e"
proof (induction ts arbitrary: pr sec s)
  case Nil
  then show ?case by simp
next
  case (Cons t ts)
  show ?case
  proof (cases "tid t = n \<or> tid t \<in> pr")
    case True
    with Cons.prems have "forBatch P n ts (pr, sec, s) = (Some e, v')" by simp
    from Cons.IH[OF this] show ?thesis by auto
  next
    case False
    obtain b s1 where aw: "await_canProceed P (tid t) s = (b, s1)"
      by (cases "await_canProceed P (tid t) s")
    then have b: b using await_canProceed_admits by blast
    have sel: "(\<not> sec \<and> tid t \<noteq> n) = (\<not> sec)" using False by simp
    obtain q s2 where pt: "processThread P t (\<not> sec) s1 = (q, s2)"
      by (cases "processThread P t (\<not> sec) s1")
    show ?thesis
    proof (cases q)
      case (Inl e')
      with Cons.prems False aw b pt sel have "e' = e" by simp
      with pt Inl processThread_Inl_rejected[of P t "\<not> sec" s1 e s2] show ?thesis by auto
    next
      case (Inr u)
      let ?s2 = "s2\<lparr>world := sleep P OPERATION_DELAY (world s2)\<rparr>"
      from Cons.prems False aw b pt sel Inr
      have "forBatch P n ts (insert (tid t) pr, True, ?s2) = (Some e, v')"
        by (cases sec) simp_all
      from Cons.IH[OF this] show ?thesis by auto
    qed
  qed
qed

lemma forBatch_None_vars:
  "forBatch P n ts (pr, sec, s) = (None, (pr', sec', s')) \<Longrightarrow>
   pr' = pr \<union> {i \<in> tid ` set ts. i \<noteq> n} \<and>
   sec' = (sec \<or> (\<exists>t\<in>set ts. tid t \<noteq> n \<and> tid t \<notin> pr))"
proof (induction ts arbitrary: pr sec s)
  case Nil
  then show ?case by simp
next
  case (Cons t ts)
  show ?case
  proof (cases "tid t = n \<or> tid t \<in> pr")
    case True
    with Cons.prems have "forBatch P n ts (pr, sec, s) = (None, (pr', sec', s'))" by simp
    from Cons.IH[OF this] True show ?thesis by auto
  next
    case False
    obtain b s1 where aw: "await_canProceed P (tid t) s = (b, s1)"
      by (cases "await_canProceed P (tid t) s")
    then have b: b using await_canProceed_admits by blast
    have sel: "(\<not> sec \<and> tid t \<noteq> n) = (\<not> sec)" using False by simp
    obtain q s2 where pt: "processThread P t (\<not> sec) s1 = (q, s2)"
      by (cases "processThread P t (\<not> sec) s1")
    show ?thesis
    proof (cases q)
      case (Inl e)
      with Cons.prems False aw b pt sel have False by simp
      then show ?thesis ..
    next
      case (Inr u)
      let ?s2 = "s2\<lparr>world := sleep P OPERATION_DELAY (world s2)\<rparr>"
      from Cons.prems False aw b pt sel Inr
      have "forBatch P n ts (insert (tid t) pr, True, ?s2) = (None, (pr', sec', s'))"
        by (cases sec) simp_all
      from Cons.IH[OF this] False show ?thesis by auto
    qed
  qed
qed







lemmas run_simps = onThreadCreate_def withRetry_def withRetry_loop.simps operation_def
  getThreadsWithCache_def cache_get_def cache_set_def reconcile_def processThreadsBatch_def
  forBatches_flat unlockedThreads_def await_canProceed_def canProceed_def timerFired_def
  processThread_def issue_def demo_def T1_def T2_def T3_def start_def emptyCache_def
  newRateLimit_def wait_def retry_throw_def issued_def
  RETRY_MAX_ATTEMPTS_def CACHE_DURATION_def RATE_LIMIT_MAX_OPS_def RATE_LIMIT_WINDOW_def
  OPERATION_DELAY_def Let_def



lemma forBatch_skip_all: "\<forall>t\<in>set ts. tid t = n \<Longrightarrow> forBatch P n ts v = (None, v)"
proof (induction ts)
  case Nil
  then show ?case by simp
next
  case (Cons t ts)
  obtain pr sec s where v: "v = (pr, sec, s)" by (cases v)
  from Cons show ?case unfolding v by simp
qed

text \<open>
  Claim C7. When every thread of the snapshot other than the trigger is locked, the
  run returns normally and leaves the state as it was: no call is issued, and the rate
  limiter is not consulted.
\<close>

theorem reconcile_all_locked:
  assumes "\<forall>t\<in>set allThreads. tid t \<noteq> newThreadId \<longrightarrow> locked t"
  shows "reconcile P allThreads newThreadId s = (Inr (), s)"
proof -
  have "\<forall>t\<in>set (unlockedThreads allThreads). tid t = newThreadId"
    using assms by (auto simp: set_unlockedThreads)
  then have "forBatch P newThreadId (unlockedThreads allThreads) ({}, False, s) = (None, ({}, False, s))"
    by (rule forBatch_skip_all)
  then show ?thesis
    by (simp add: reconcile_def processThreadsBatch_def forBatches_flat)
qed

theorem reconcile_all_locked_witness:
  "locked (T1\<lparr>locked := True\<rparr>) \<and> locked (T2\<lparr>locked := True\<rparr>) \<and> tid T3 = ''3''
   \<and> reconcile (demo [] [] []) [T1\<lparr>locked := True\<rparr>, T2\<lparr>locked := True\<rparr>, T3] ''3'' start
       = (Inr (), start)"
proof -
  have h: "\<forall>t\<in>set [T1\<lparr>locked := True\<rparr>, T2\<lparr>locked := True\<rparr>, T3]. tid t \<noteq> ''3'' \<longrightarrow> locked t"
    by (simp add: T3_def)
  from reconcile_all_locked[OF h] show ?thesis by (simp add: T3_def)
qed

section \<open>The trigger is never touched\<close>

lemma trace_extends_refl: "calls s' = calls s \<Longrightarrow> trace_extends n s s'"
  by (simp add: trace_extends_def)

lemma trace_extends_trans:
  "trace_extends n s s1 \<Longrightarrow> trace_extends n s1 s2 \<Longrightarrow> trace_extends n s s2"
  unfolding trace_extends_def by (metis Un_iff append.assoc set_append)

lemma trace_extends_issued:
  "trace_extends n s s' \<Longrightarrow> \<forall>c\<in>set (issued s s'). snd c \<noteq> n"
  by (auto simp: trace_extends_def issued_def)

lemma reconcile_trace: "trace_extends n s (snd (reconcile P allThreads n s))"
proof -
  obtain q s' where rec: "reconcile P allThreads n s = (q, s')"
    by (cases "reconcile P allThreads n s")
  from reconcile_calls[OF rec] obtain k where
    k: "calls s' = calls s @ take k (plan n (unlockedThreads allThreads) {} False)" by blast
  have "\<forall>c\<in>set (take k (plan n (unlockedThreads allThreads) {} False)). snd c \<noteq> n"
    using plan_tid by (metis in_set_takeD)
  with k rec show ?thesis unfolding trace_extends_def by auto
qed

lemma getThreadsWithCache_calls: "calls (snd (getThreadsWithCache P channel s)) = calls s"
  by (simp add: getThreadsWithCache_def Let_def split: prod.splits option.splits sum.splits)

lemma operation_trace: "trace_extends n s (snd (operation P CHANNEL_ID n s))"
proof (cases "channelsFetch P CHANNEL_ID (world s)")
  case (Pair q w)
  show ?thesis
  proof (cases q)
    case (Inl e)
    with Pair show ?thesis by (simp add: operation_def trace_extends_refl)
  next
    case (Inr channel)
    let ?s0 = "s\<lparr>world := w\<rparr>"
    obtain g s1 where g: "getThreadsWithCache P channel ?s0 = (g, s1)"
      by (cases "getThreadsWithCache P channel ?s0")
    have c1: "calls s1 = calls s" using getThreadsWithCache_calls[of P channel ?s0] g by simp
    show ?thesis
    proof (cases g)
      case (Inl e)
      with Pair Inr g c1 show ?thesis by (simp add: operation_def trace_extends_refl)
    next
      case r: (Inr allThreads)
      have "trace_extends n s s1" using c1 by (rule trace_extends_refl)
      moreover have "trace_extends n s1 (snd (reconcile P allThreads n s1))"
        by (rule reconcile_trace)
      ultimately show ?thesis
        using Pair Inr g r by (simp add: operation_def trace_extends_trans)
    qed
  qed
qed

lemma withRetry_loop_invariant:
  "(\<forall>s. R s \<longrightarrow> R (snd (opn s))) \<Longrightarrow> (\<forall>d s. R s \<longrightarrow> R (wt d s)) \<Longrightarrow> R s \<Longrightarrow>
   R (snd (snd (withRetry_loop opn wt M a le acc s)))"
proof (induction opn wt M a le acc s rule: withRetry_loop.induct)
  case (1 operation wait maxRetries attempt lastError waited s)
  show ?case
  proof (cases "attempt \<le> maxRetries")
    case False
    with 1 show ?thesis by (subst withRetry_loop.simps) simp
  next
    case True
    obtain q s' where o: "operation s = (q, s')" by (cases "operation s")
    have Rs': "R s'" using "1.prems"(1,3) o by (metis snd_conv)
    show ?thesis
    proof (cases q)
      case (Inr v)
      with True o Rs' show ?thesis by (subst withRetry_loop.simps) simp
    next
      case (Inl err)
      show ?thesis
      proof (cases "attempt = maxRetries")
        case True
        with Inl o Rs' show ?thesis by (subst withRetry_loop.simps) simp
      next
        case False
        have "R (wait (retry_delay attempt) s')" using "1.prems"(2) Rs' by blast
        from "1.IH"[OF True o[symmetric] Inl False "1.prems"(1,2) this] True False Inl o
        show ?thesis by (subst withRetry_loop.simps) simp
      qed
    qed
  qed
qed

lemma wait_calls: "calls (wait P d s) = calls s"
  by (simp add: wait_def)

lemma onThreadCreate_trace: "trace_extends (tid t) s (snd (onThreadCreate P CHANNEL_ID t s))"
proof (cases "parentId t \<noteq> CHANNEL_ID")
  case True
  then show ?thesis by (simp add: onThreadCreate_def trace_extends_refl)
next
  case False
  let ?R = "trace_extends (tid t) s"
  have 1: "\<forall>s1. ?R s1 \<longrightarrow> ?R (snd (operation P CHANNEL_ID (tid t) s1))"
    using operation_trace trace_extends_trans by blast
  have 2: "\<forall>d s1. ?R s1 \<longrightarrow> ?R (wait P d s1)"
    using trace_extends_trans trace_extends_refl[OF wait_calls] by blast
  have 3: "?R s" by (simp add: trace_extends_refl)
  have "?R (snd (snd (withRetry (operation P CHANNEL_ID (tid t)) (wait P) RETRY_MAX_ATTEMPTS s)))"
    unfolding withRetry_def using 1 2 3 by (rule withRetry_loop_invariant)
  moreover obtain q wd s' where
    "withRetry (operation P CHANNEL_ID (tid t)) (wait P) RETRY_MAX_ATTEMPTS s = (q, wd, s')"
    by (cases "withRetry (operation P CHANNEL_ID (tid t)) (wait P) RETRY_MAX_ATTEMPTS s") auto
  ultimately show ?thesis using False
    by (cases q) (simp_all add: onThreadCreate_def)
qed

text \<open>
  Claim C6. No call issued by \<^verbatim>\<open>processThreadsBatch\<close>, by the reconciliation of a
  thread list, or by the whole handler of a thread-creation event (all its retries
  included) is a call on the thread that triggered the run, whatever the platform
  does.
\<close>

theorem trigger_never_touched:
  "(\<forall>c\<in>set (issued s (snd (processThreadsBatch P ts newThreadId s))). snd c \<noteq> newThreadId)
   \<and> (\<forall>c\<in>set (issued s (snd (reconcile P allThreads newThreadId s))). snd c \<noteq> newThreadId)
   \<and> (\<forall>c\<in>set (issued s (snd (onThreadCreate P CHANNEL_ID t s))). snd c \<noteq> tid t)"
proof -
  obtain q s' where b: "processThreadsBatch P ts newThreadId s = (q, s')"
    by (cases "processThreadsBatch P ts newThreadId s")
  from processThreadsBatch_calls[OF b] obtain k where
    "calls s' = calls s @ take k (plan newThreadId ts {} False)" by blast
  then have "issued s s' = take k (plan newThreadId ts {} False)" by (rule issued_append)
  then have "\<forall>c\<in>set (issued s s'). snd c \<noteq> newThreadId"
    using plan_tid by (metis in_set_takeD)
  with b have "\<forall>c\<in>set (issued s (snd (processThreadsBatch P ts newThreadId s))). snd c \<noteq> newThreadId"
    by simp
  moreover have "\<forall>c\<in>set (issued s (snd (reconcile P allThreads newThreadId s))). snd c \<noteq> newThreadId"
    by (rule trace_extends_issued[OF reconcile_trace])
  moreover have "\<forall>c\<in>set (issued s (snd (onThreadCreate P CHANNEL_ID t s))). snd c \<noteq> tid t"
    by (rule trace_extends_issued[OF onThreadCreate_trace])
  ultimately show ?thesis by blast
qed

theorem trigger_never_touched_witness:
  "issued start (snd (onThreadCreate (demo [T3, T2] [T1] []) ''chan'' T3 start)) =
     [(Send, ''2''), (SetLocked, ''2''), (SetArchived, ''1''), (SetLocked, ''1'')]
   \<and> (SetArchived, ''3'') \<notin> set (issued start (snd (onThreadCreate (demo [T3, T2] [T1] []) ''chan'' T3 start)))
   \<and> (Send, ''3'') \<notin> set (issued start (snd (onThreadCreate (demo [T3, T2] [T1] []) ''chan'' T3 start)))
   \<and> (SetLocked, ''3'') \<notin> set (issued start (snd (onThreadCreate (demo [T3, T2] [T1] []) ''chan'' T3 start)))"
proof -
  let ?iss = "issued start (snd (onThreadCreate (demo [T3, T2] [T1] []) ''chan'' T3 start))"
  have run: "?iss = [(Send, ''2''), (SetLocked, ''2''), (SetArchived, ''1''), (SetLocked, ''1'')]"
    by (simp add: run_simps)
  have "\<forall>c\<in>set ?iss. snd c \<noteq> tid T3"
    using trigger_never_touched[of start "demo [T3, T2] [T1] []" "[]" "''3''" "[]" "''chan''" T3]
    by blast
  then have "\<forall>c\<in>set ?iss. snd c \<noteq> ''3''" by (simp add: T3_def)
  then have "(SetArchived, ''3'') \<notin> set ?iss \<and> (Send, ''3'') \<notin> set ?iss \<and> (SetLocked, ''3'') \<notin> set ?iss"
    by fastforce
  with run show ?thesis by blast
qed

section \<open>A cached snapshot that predates the trigger\<close>




section \<open>A failing call ends the run\<close>

lemma plan_tid_in: "c \<in> set (plan n ts pr sec) \<Longrightarrow> snd c \<in> tid ` set ts"
  by (induction ts arbitrary: pr sec) (auto split: if_splits dest: spec_thread_calls_tid)

lemma failure_propagates_from:
  assumes "forBatch P newThreadId before ({}, False, s) = (None, (processedThreads, secondLatestProcessed, s1))"
      and "tid t \<noteq> newThreadId" and "tid t \<notin> processedThreads"
      and "processThread P t (\<not> secondLatestProcessed) (snd (await_canProceed P (tid t) s1)) = (Inl e, s2)"
  shows "processThreadsBatch P (before @ t # after) newThreadId s = (Inl e, s2)
         \<and> (\<forall>c\<in>set (issued s s2). snd c \<in> tid ` set (before @ [t]))"
proof -
  obtain b s1' where aw: "await_canProceed P (tid t) s1 = (b, s1')"
    by (cases "await_canProceed P (tid t) s1")
  then have b: b and c1: "calls s1' = calls s1" using await_canProceed_admits by blast+
  have "forBatch P newThreadId (t # after) (processedThreads, secondLatestProcessed, s1)
          = (Some e, (processedThreads, True, s2))"
    using assms(2,3,4) aw b by (cases secondLatestProcessed) simp_all
  with assms(1) have "forBatch P newThreadId (before @ t # after) ({}, False, s)
          = (Some e, (processedThreads, True, s2))"
    by (simp add: forBatch_append)
  then have res: "processThreadsBatch P (before @ t # after) newThreadId s = (Inl e, s2)"
    by (simp add: processThreadsBatch_def forBatches_flat)
  have c0: "calls s1 = calls s @ plan newThreadId before {} False"
    by (rule forBatch_None_calls[OF assms(1)])
  from processThread_calls[OF assms(4)] aw obtain k where
    "calls s2 = calls s1' @ take k (spec_thread_calls t (\<not> secondLatestProcessed))" by auto
  with c0 c1 have "issued s s2 = plan newThreadId before {} False
        @ take k (spec_thread_calls t (\<not> secondLatestProcessed))"
    by (intro issued_append) simp
  then have "\<forall>c\<in>set (issued s s2). snd c \<in> tid ` set (before @ [t])"
    by (auto dest: plan_tid_in in_set_takeD spec_thread_calls_tid)
  with res show ?thesis by blast
qed

lemma rejected_call_fails_batch:
  assumes before_ok: "\<forall>u\<in>set before. \<forall>b w. fst (perform P b u w) = None"
      and nt: "tid t \<noteq> newThreadId" and fresh: "tid t \<notin> tid ` set before"
      and due: "map fst (spec_thread_calls t (\<forall>u\<in>set before. tid u = newThreadId)) = pre @ a # post"
      and pre_ok: "\<forall>b\<in>set pre. \<forall>w. fst (perform P b t w) = None"
      and rejected: "\<forall>w. fst (perform P a t w) = Some e"
  shows "fst (processThreadsBatch P (before @ t # after) newThreadId s) = Inl e
         \<and> issued s (snd (processThreadsBatch P (before @ t # after) newThreadId s)) =
             plan newThreadId before {} False @ map (\<lambda>b. (b, tid t)) (pre @ [a])
         \<and> (\<forall>c\<in>set (issued s (snd (processThreadsBatch P (before @ t # after) newThreadId s))).
               snd c \<in> tid ` set (before @ [t]))"
proof -
  let ?n = newThreadId
  obtain q pr sec s1 where f: "forBatch P ?n before ({}, False, s) = (q, (pr, sec, s1))"
    by (cases "forBatch P ?n before ({}, False, s)") auto
  have q: "q = None"
  proof (cases q)
    case (Some e')
    with f forBatch_Some_rejected[of P ?n before "{}" False s e' "(pr, sec, s1)"] before_ok
    show ?thesis by force
  qed simp
  note f = f[unfolded q]
  from forBatch_None_vars[OF f]
  have pr: "pr = {i \<in> tid ` set before. i \<noteq> ?n}"
    and sec: "sec = (\<exists>u\<in>set before. tid u \<noteq> ?n)" by auto
  have notin: "tid t \<notin> pr" using fresh pr by auto
  have sel: "(\<not> sec) = (\<forall>u\<in>set before. tid u = ?n)" using sec by auto
  let ?s1' = "snd (await_canProceed P (tid t) s1)"
  have c1': "calls ?s1' = calls s1"
    using await_canProceed_admits[of P "tid t" s1] by (cases "await_canProceed P (tid t) s1") auto
  have pt: "processThread P t (\<not> sec) ?s1' = spec_issue_in_order P t (pre @ a # post) ?s1'"
    unfolding processThread_refines sel due ..
  from spec_issue_in_order_first_rejection[OF pre_ok rejected, of post ?s1']
  have r: "fst (processThread P t (\<not> sec) ?s1') = Inl e"
    and c: "calls (snd (processThread P t (\<not> sec) ?s1')) = calls ?s1' @ map (\<lambda>b. (b, tid t)) (pre @ [a])"
    unfolding pt by blast+
  let ?s2 = "snd (processThread P t (\<not> sec) ?s1')"
  from r have pt': "processThread P t (\<not> sec) ?s1' = (Inl e, ?s2)"
    by (cases "processThread P t (\<not> sec) ?s1'") simp
  from failure_propagates_from[OF f nt notin pt', of after]
  have res: "processThreadsBatch P (before @ t # after) ?n s = (Inl e, ?s2)"
    and conf: "\<forall>c\<in>set (issued s ?s2). snd c \<in> tid ` set (before @ [t])" by blast+
  have "calls ?s2 = calls s @ plan ?n before {} False @ map (\<lambda>b. (b, tid t)) (pre @ [a])"
    using c c1' forBatch_None_calls[OF f] by simp
  then have "issued s ?s2 = plan ?n before {} False @ map (\<lambda>b. (b, tid t)) (pre @ [a])"
    by (rule issued_append)
  with res conf show ?thesis by simp
qed

text \<open>
  Claim C3, as the code has it. \<^verbatim>\<open>processThread\<close> issues the calls that are due on
  its thread in order and fails with the error of the first call the platform rejects:
  its \<^verbatim>\<open>catch\<close> block logs the error and throws it again. \<^verbatim>\<open>processThreadsBatch\<close>
  does not catch it. So when the platform rejects no call on the threads before \<open>t\<close>,
  accepts the calls due on \<open>t\<close> before the action \<open>a\<close> and rejects \<open>a\<close> with \<open>e\<close>,
  \<^verbatim>\<open>processThreadsBatch\<close> fails with \<open>e\<close>, its calls are those of the threads before
  \<open>t\<close> and the calls on \<open>t\<close> up to \<open>a\<close>, and the threads after \<open>t\<close> are not processed in
  that run. The same holds from any state in which the threads before \<open>t\<close> were
  handled without an error and \<^verbatim>\<open>processThread\<close> fails on \<open>t\<close>.
\<close>

theorem processThreadsBatch_failure_propagates:
  "processThread P t sel s0 = spec_issue_in_order P t (map fst (spec_thread_calls t sel)) s0
   \<and> ((\<forall>u\<in>set before. \<forall>b w. fst (perform P b u w) = None)
        \<and> tid t \<noteq> newThreadId \<and> tid t \<notin> tid ` set before
        \<and> map fst (spec_thread_calls t (\<forall>u\<in>set before. tid u = newThreadId)) = pre @ a # post
        \<and> (\<forall>b\<in>set pre. \<forall>w. fst (perform P b t w) = None)
        \<and> (\<forall>w. fst (perform P a t w) = Some e)
       \<longrightarrow> fst (processThreadsBatch P (before @ t # after) newThreadId s) = Inl e
         \<and> issued s (snd (processThreadsBatch P (before @ t # after) newThreadId s)) =
             plan newThreadId before {} False @ map (\<lambda>b. (b, tid t)) (pre @ [a])
         \<and> (\<forall>c\<in>set (issued s (snd (processThreadsBatch P (before @ t # after) newThreadId s))).
               snd c \<in> tid ` set (before @ [t])))
   \<and> (forBatch P newThreadId before ({}, False, s) = (None, (processedThreads, secondLatestProcessed, s1))
        \<and> tid t \<noteq> newThreadId \<and> tid t \<notin> processedThreads
        \<and> processThread P t (\<not> secondLatestProcessed) (snd (await_canProceed P (tid t) s1)) = (Inl e', s2)
       \<longrightarrow> processThreadsBatch P (before @ t # after) newThreadId s = (Inl e', s2)
         \<and> (\<forall>c\<in>set (issued s s2). snd c \<in> tid ` set (before @ [t])))"
  using processThread_refines[of P t sel s0]
    rejected_call_fails_batch[of before P t newThreadId pre a post e after s]
    failure_propagates_from[of P newThreadId before s processedThreads secondLatestProcessed s1 t e' s2 after]
  by blast

theorem processThreadsBatch_failure_propagates_witness:
  "tid T1 \<noteq> ''3'' \<and> tid T1 \<notin> tid ` set [T3]
   \<and> map fst (spec_thread_calls T1 True) = [SetArchived] @ Send # [SetLocked]
   \<and> fst (perform (demo [] [] [(Send, ''1'')]) Send T1 0) = Some (Error ''rejected'')
   \<and> fst (processThreadsBatch (demo [] [] [(Send, ''1'')]) ([T3] @ T1 # [T2]) ''3'' start)
       = Inl (Error ''rejected'')
   \<and> issued start (snd (processThreadsBatch (demo [] [] [(Send, ''1'')]) ([T3] @ T1 # [T2]) ''3'' start))
       = [(SetArchived, ''1''), (Send, ''1'')]
   \<and> (SetLocked, ''2'') \<notin> set (issued start
         (snd (processThreadsBatch (demo [] [] [(Send, ''1'')]) ([T3] @ T1 # [T2]) ''3'' start)))
   \<and> forBatch (demo [] [] [(Send, ''1'')]) ''3'' [T3] ({}, False, start) = (None, ({}, False, start))
   \<and> fst (processThread (demo [] [] [(Send, ''1'')]) T1 True start) = Inl (Error ''rejected'')
   \<and> fst (spec_issue_in_order (demo [] [] [(Send, ''1'')]) T1 [SetArchived, Send, SetLocked] start)
       = Inl (Error ''rejected'')"
proof -
  let ?P = "demo [] [] [(Send, ''1'')]"
  let ?run = "processThreadsBatch ?P ([T3] @ T1 # [T2]) ''3'' start"
  have h1: "\<forall>u\<in>set [T3]. \<forall>b w. fst (perform ?P b u w) = None"
    by (simp add: demo_def T3_def)
  have h2: "tid T1 \<noteq> ''3''" and h3: "tid T1 \<notin> tid ` set [T3]" by (simp_all add: T1_def T3_def)
  have sel: "(\<forall>u\<in>set [T3]. tid u = ''3'') = True" by (simp add: T3_def)
  have due: "map fst (spec_thread_calls T1 True) = [SetArchived] @ Send # [SetLocked]"
    by (simp add: spec_thread_calls_def T1_def)
  have h4: "map fst (spec_thread_calls T1 (\<forall>u\<in>set [T3]. tid u = ''3'')) = [SetArchived] @ Send # [SetLocked]"
    unfolding sel by (rule due)
  have h5: "\<forall>b\<in>set [SetArchived]. \<forall>w. fst (perform ?P b T1 w) = None"
    by (simp add: demo_def T1_def)
  have h6: "\<forall>w. fst (perform ?P Send T1 w) = Some (Error ''rejected'')"
    by (simp add: demo_def T1_def)
  note th = processThreadsBatch_failure_propagates[where P = ?P and t = T1 and before = "[T3]"
      and newThreadId = "''3''" and pre = "[SetArchived]" and a = Send and post = "[SetLocked]"
      and e = "Error ''rejected''" and after = "[T2]" and s = start and sel = True and ?s0.0 = start
      and processedThreads = "{}" and secondLatestProcessed = False and ?s1.0 = start
      and e' = "Error ''rejected''"
      and ?s2.0 = "snd (processThread ?P T1 (\<not> False) (snd (await_canProceed ?P (tid T1) start)))"]
  from th h1 h2 h3 h4 h5 h6 have r: "fst ?run = Inl (Error ''rejected'')"
    and i: "issued start (snd ?run) = plan ''3'' [T3] {} False @ map (\<lambda>b. (b, tid T1)) ([SetArchived] @ [Send])"
    and c: "\<forall>c\<in>set (issued start (snd ?run)). snd c \<in> tid ` set ([T3] @ [T1])"
    by blast+
  from i have i': "issued start (snd ?run) = [(SetArchived, ''1''), (Send, ''1'')]"
    by (simp add: T1_def T3_def)
  from c have n: "(SetLocked, ''2'') \<notin> set (issued start (snd ?run))"
    by (auto simp: T1_def T3_def)
  have fb: "forBatch ?P ''3'' [T3] ({}, False, start) = (None, ({}, False, start))"
    by (simp add: T3_def)
  from th have "processThread ?P T1 True start =
      spec_issue_in_order ?P T1 (map fst (spec_thread_calls T1 True)) start" by blast
  then have eq: "processThread ?P T1 True start = spec_issue_in_order ?P T1 [SetArchived, Send, SetLocked] start"
    using due by simp
  have pt: "fst (processThread ?P T1 True start) = Inl (Error ''rejected'')"
    by (simp add: run_simps)
  with eq have sp: "fst (spec_issue_in_order ?P T1 [SetArchived, Send, SetLocked] start) = Inl (Error ''rejected'')"
    by simp
  have p: "fst (perform ?P Send T1 0) = Some (Error ''rejected'')" using h6 by blast
  from h2 h3 due p r i' n fb pt sp show ?thesis by blast
qed

text \<open>
  The run on which claim C3 fails as it is written: the lock of thread 2 is rejected,
  \<^verbatim>\<open>processThreadsBatch\<close> fails with that error, and the unlocked thread 1 that
  follows receives no call. The handler retries once, fails in the same way and logs
  the error of the exhausted retries; thread 1 is never reached.
\<close>

theorem failure_aborts_batch_counterexample:
  "fst (processThreadsBatch (demo [] [] [(SetLocked, ''2'')]) [T3, T2, T1] ''3'' start)
     = Inl (Error ''rejected'')
   \<and> calls (snd (processThreadsBatch (demo [] [] [(SetLocked, ''2'')]) [T3, T2, T1] ''3'' start))
     = [(Send, ''2''), (SetLocked, ''2'')]
   \<and> \<not> locked T1 \<and> tid T1 \<noteq> ''3''
   \<and> fst (onThreadCreate (demo [T3, T2] [T1] [(SetLocked, ''2'')]) ''chan'' T3 start)
     = Some (OperationFailed 2 (Error ''rejected''))
   \<and> calls (snd (onThreadCreate (demo [T3, T2] [T1] [(SetLocked, ''2'')]) ''chan'' T3 start))
     = [(Send, ''2''), (SetLocked, ''2''), (Send, ''2''), (SetLocked, ''2'')]"
  by (simp add: run_simps)

section \<open>The rate limiter\<close>

text \<open>
  A suspended call leaves its callback in the queue, so the timer it has set finds a
  callback to release.
\<close>

lemma canProceed_suspended_released:
  "canProceed rl threadId now = (Suspended, rl') \<Longrightarrow> fst (timerFired rl' threadId) \<noteq> None"
  by (auto simp: canProceed_def timerFired_def Let_def split: if_splits option.splits list.splits)

text \<open>
  The immediate path records what it admits, and the recorded timestamps of a thread
  never outnumber \<open>maxOperations\<close>.
\<close>

lemma canProceed_recorded_bound:
  assumes "\<forall>i ts. operations rl i = Some ts \<longrightarrow> length ts \<le> maxOperations rl"
  shows "\<forall>i ts. operations (snd (canProceed rl threadId now)) i = Some ts \<longrightarrow>
           length ts \<le> maxOperations (snd (canProceed rl threadId now))"
  using assms by (auto simp: canProceed_def Let_def)

lemmas sim_simps = sim_step_def canProceed_def timerFired_def newSim_def newRateLimit_def
  RATE_LIMIT_MAX_OPS_def RATE_LIMIT_WINDOW_def admitted_within_def burst_def

text \<open>
  Claim C2 on the schedule \<open>burst\<close>, with the default limit of 5 operations in 10000
  milliseconds: the first five calls are admitted at once, the next six are suspended,
  and each of them is released by its timer without being recorded or checked again.
  Six operations are admitted for the thread in the window that ends at time 10010.
\<close>

theorem queued_calls_exceed_limit:
  "map_option (\<lambda>st. admitted_within st ''7'' 10010) (sim_run burst newSim) = Some 6
   \<and> maxOperations newRateLimit = 5 \<and> timeWindow newRateLimit = 10000"
  by (simp add: sim_simps numeral_eq_Suc)

end
